theory Spec2Isabelle
  imports Main "HOL-Library.Word"
begin

section \<open>The box reader of media/mp4/box_reader.h\<close>

text \<open>
  The header declares the class \<open>BoxReader\<close> (a \<open>BufferReader\<close> with a type, a
  multimap of child readers and the latch \<open>scanned_\<close>) and defines three templates:
  \<open>ReadChildren\<close>, \<open>TryReadChildren\<close> and \<open>ReadAllChildren\<close>. The members end
  with an underscore in the source; a name cannot end so here, and they are written
  \<open>m_buf\<close>, \<open>m_size\<close>, \<open>m_pos\<close>, \<open>m_type\<close>, \<open>m_children\<close>, \<open>m_scanned\<close>.
  Sizes and positions are \<open>size_t\<close> in the source and natural numbers here: the only
  subtraction, \<open>size() - pos()\<close>, is made under \<open>pos() < size()\<close>.
\<close>

type_synonym uint8 = "8 word"
type_synonym FourCC = "32 word"

text \<open>
  The multimap holds owning pointers. \<open>delete itr->second\<close> frees the reader and leaves
  the pointer in the entry: the entry is then \<open>Deleted\<close>.
\<close>

datatype 'r owned = Live 'r | Deleted

datatype BoxReader = BoxReader
  (m_buf: "uint8 list")
  (m_size: nat)
  (m_pos: nat)
  (m_type: FourCC)
  (m_children: "(FourCC \<times> BoxReader owned) list")
  (m_scanned: bool)

text \<open>
  \<open>std::multimap<FourCC, BoxReader*>\<close>: the entries in iteration order, that is by
  ascending key, entries of one key in the order of their insertion.
\<close>

type_synonym ChildMap = "(FourCC \<times> BoxReader owned) list"

fun set_pos :: "nat \<Rightarrow> BoxReader \<Rightarrow> BoxReader" where
  "set_pos p (BoxReader b s _ t c sc) = BoxReader b s p t c sc"

fun set_children :: "ChildMap \<Rightarrow> BoxReader \<Rightarrow> BoxReader" where
  "set_children c (BoxReader b s p t _ sc) = BoxReader b s p t c sc"

fun set_scanned :: "bool \<Rightarrow> BoxReader \<Rightarrow> BoxReader" where
  "set_scanned sc (BoxReader b s p t c _) = BoxReader b s p t c sc"

text \<open>
  The class \<open>T\<close> of a template: \<open>T()\<close>, \<open>BoxType()\<close> and \<open>Parse(BoxReader*)\<close>.
  \<open>Parse\<close> changes the object it is called on and answers whether it succeeded. What
  it leaves in the child reader is not read again: the templates destroy that reader,
  or read only its \<open>size()\<close>, which no public member changes.
\<close>

record 'a Box =
  T_default :: 'a
  BoxType :: "'a \<Rightarrow> FourCC"
  Parse :: "'a \<Rightarrow> BoxReader \<Rightarrow> bool \<times> 'a"

text \<open>
  What a call leaves behind. \<open>DCHECK\<close> is the source's contract assertion: a violated
  one ends the call as \<open>DcheckFailed\<close>. \<open>Undefined\<close> is a call that used a freed
  reader. \<open>Returned ok r cs\<close> is a return of \<open>ok\<close> with the reader and the
  caller's vector as the call left them.
\<close>

datatype 'a outcome = DcheckFailed | Undefined | Returned bool BoxReader "'a list"

subsection \<open>The multimap\<close>

definition lower_bound :: "FourCC \<Rightarrow> ChildMap \<Rightarrow> nat" where
  "lower_bound k m = length (takeWhile (\<lambda>e. fst e < k) m)"

definition upper_bound :: "FourCC \<Rightarrow> ChildMap \<Rightarrow> nat" where
  "upper_bound k m = length (takeWhile (\<lambda>e. fst e \<le> k) m)"

definition erase :: "nat \<Rightarrow> nat \<Rightarrow> ChildMap \<Rightarrow> ChildMap" where
  "erase first_itr last_itr m = take first_itr m @ drop last_itr m"

text \<open>\<open>std::multimap::insert\<close>: the new entry goes after the entries of its key.\<close>

definition insert_mm :: "FourCC \<times> BoxReader owned \<Rightarrow> ChildMap \<Rightarrow> ChildMap" where
  "insert_mm e m = take (upper_bound (fst e) m) m @ e # drop (upper_bound (fst e) m) m"

text \<open>The multimap after the children \<open>ds\<close> were inserted one by one, as discovered.\<close>

definition multimap_of :: "(FourCC \<times> BoxReader owned) list \<Rightarrow> ChildMap" where
  "multimap_of ds = foldl (\<lambda>m e. insert_mm e m) [] ds"

subsection \<open>TryReadChildren and ReadChildren\<close>

text \<open>\<open>std::vector::resize\<close>: cut to \<open>n\<close> elements, or filled up with \<open>T()\<close>.\<close>

definition resize :: "'a \<Rightarrow> nat \<Rightarrow> 'a list \<Rightarrow> 'a list" where
  "resize d n xs = take n xs @ replicate (n - length xs) d"

text \<open>
  The \<open>for\<close> loop of \<open>TryReadChildren\<close> over the entries from \<open>start_itr\<close> to
  \<open>end_itr\<close> and the slots of the vector from \<open>children->begin()\<close>. A failed \<open>Parse\<close>
  returns at once (\<open>RCHECK\<close>): the entries before it were freed, it and the entries
  after it were not.
\<close>

datatype 'a range_result =
  RangeDone ChildMap "'a list" | RangeFailed ChildMap "'a list" | RangeUndefined

fun parse_range :: "('a, 'b) Box_scheme \<Rightarrow> ChildMap \<Rightarrow> 'a list \<Rightarrow> 'a range_result" where
  "parse_range T [] cs = RangeDone [] cs"
| "parse_range T ((k, Deleted) # es) (c # cs) = RangeUndefined"
| "parse_range T ((k, Live rd) # es) (c # cs) =
     (case Parse T c rd of
        (False, c') \<Rightarrow> RangeFailed ((k, Live rd) # es) (c' # cs)
      | (True, c') \<Rightarrow>
          (case parse_range T es cs of
             RangeDone es' cs' \<Rightarrow> RangeDone ((k, Deleted) # es') (c' # cs')
           | RangeFailed es' cs' \<Rightarrow> RangeFailed ((k, Deleted) # es') (c' # cs')
           | RangeUndefined \<Rightarrow> RangeUndefined))"
| "parse_range T (e # es) [] = RangeUndefined"

definition TryReadChildren :: "('a, 'b) Box_scheme \<Rightarrow> BoxReader \<Rightarrow> 'a list \<Rightarrow> 'a outcome" where
  "TryReadChildren T r children =
     (if \<not> m_scanned r then DcheckFailed
      else if children \<noteq> [] then DcheckFailed
      else
        let children1 = resize (T_default T) 1 children;
            child_type = BoxType T (children1 ! 0);
            start_itr = lower_bound child_type (m_children r);
            end_itr = upper_bound child_type (m_children r);
            children2 = resize (T_default T) (end_itr - start_itr) children1
        in case parse_range T (take (end_itr - start_itr) (drop start_itr (m_children r)))
                  children2 of
             RangeFailed es cs \<Rightarrow>
               Returned False
                 (set_children
                    (take start_itr (m_children r) @ es @ drop end_itr (m_children r)) r)
                 cs
           | RangeDone es cs \<Rightarrow>
               Returned True (set_children (erase start_itr end_itr (m_children r)) r) cs
           | RangeUndefined \<Rightarrow> Undefined)"

definition ReadChildren :: "('a, 'b) Box_scheme \<Rightarrow> BoxReader \<Rightarrow> 'a list \<Rightarrow> 'a outcome" where
  "ReadChildren T r children =
     (case TryReadChildren T r children of
        Returned ok r' cs \<Rightarrow> Returned (ok \<and> cs \<noteq> []) r' cs
      | DcheckFailed \<Rightarrow> DcheckFailed
      | Undefined \<Rightarrow> Undefined)"

subsection \<open>ReadAllChildren\<close>

text \<open>
  Modelled from the spec: \<open>FOURCC_NULL\<close> of media/mp4/fourccs.h, which is not among
  the sources; the tag of a reader that has read no header.
\<close>

definition FOURCC_NULL :: FourCC where
  "FOURCC_NULL = 0"

text \<open>
  Modelled from the spec: the constructor \<open>BoxReader(buf, size)\<close>, declared in the header
  and defined in box_reader.cc, which is not among the sources. A new reader stands at
  the start of its bytes, is not scanned and has no children.
\<close>

definition BoxReader_new :: "uint8 list \<Rightarrow> nat \<Rightarrow> BoxReader" where
  "BoxReader_new buf size_arg = BoxReader buf size_arg 0 FOURCC_NULL [] False"

text \<open>
  Modelled from the spec: \<open>BufferReader::HasBytes\<close> of media/base/buffer_reader.h, which
  is not among the sources: \<open>n\<close> more bytes lie before the end of the reader.
\<close>

definition HasBytes :: "nat \<Rightarrow> BoxReader \<Rightarrow> bool" where
  "HasBytes n r = (m_pos r + n \<le> m_size r)"

text \<open>
  Modelled from the spec: \<open>BufferReader::SkipBytes\<close> of media/base/buffer_reader.h, which
  is not among the sources. A skip past the end of the reader fails and leaves the
  cursor (an overrun is a failure); any other skip advances the cursor.
\<close>

definition SkipBytes :: "nat \<Rightarrow> BoxReader \<Rightarrow> bool \<times> BoxReader" where
  "SkipBytes n r = (if HasBytes n r then (True, set_pos (m_pos r + n) r) else (False, r))"

text \<open>
  \<open>ReadHeader\<close> is private and defined in box_reader.cc: the template is modelled for
  any \<open>RH\<close>, which maps the child reader to the value returned, \<open>*err\<close> and the child
  reader after the call. One pass of the body of the \<open>while\<close> loop either goes on or
  returns false.
\<close>

type_synonym header_reader = "BoxReader \<Rightarrow> bool \<times> bool \<times> BoxReader"

datatype 'a iteration = Continue BoxReader "'a list" | ReturnFalse BoxReader "'a list"

definition ReadAllChildren_body ::
  "header_reader \<Rightarrow> ('a, 'b) Box_scheme \<Rightarrow> BoxReader \<Rightarrow> 'a list \<Rightarrow> 'a iteration" where
  "ReadAllChildren_body RH T r children =
     (let child_reader = BoxReader_new (drop (m_pos r) (m_buf r)) (m_size r - m_pos r)
      in case RH child_reader of
           (False, err, child_reader') \<Rightarrow> ReturnFalse r children
         | (True, err, child_reader') \<Rightarrow>
             (case Parse T (T_default T) child_reader' of
                (False, child) \<Rightarrow> ReturnFalse r children
              | (True, child) \<Rightarrow>
                  (case SkipBytes (m_size child_reader') r of
                     (False, r') \<Rightarrow> ReturnFalse r' (children @ [child])
                   | (True, r') \<Rightarrow> Continue r' (children @ [child]))))"

partial_function (option) ReadAllChildren_loop ::
  "header_reader \<Rightarrow> ('a, 'b) Box_scheme \<Rightarrow> BoxReader \<Rightarrow> 'a list \<Rightarrow> 'a outcome option" where
  "ReadAllChildren_loop RH T r children =
     (if m_pos r < m_size r then
        (case ReadAllChildren_body RH T r children of
           ReturnFalse r' children' \<Rightarrow> Some (Returned False r' children')
         | Continue r' children' \<Rightarrow> ReadAllChildren_loop RH T r' children')
      else Some (Returned True r children))"

definition ReadAllChildren ::
  "header_reader \<Rightarrow> ('a, 'b) Box_scheme \<Rightarrow> BoxReader \<Rightarrow> 'a list \<Rightarrow> 'a outcome option" where
  "ReadAllChildren RH T r children =
     (if m_scanned r then Some DcheckFailed
      else ReadAllChildren_loop RH T (set_scanned True r) children)"

text \<open>
  The spec's words for a body that is an exact concatenation of units: the units
  \<open>us\<close> are read one after the other from the bytes \<open>bs\<close>, of which \<open>n\<close> belong
  to the body; each has a header that \<open>RH\<close> accepts, fits in what remains and is
  accepted by \<open>Parse\<close>; nothing remains after the last.
\<close>

fun exact_units ::
  "header_reader \<Rightarrow> ('a, 'b) Box_scheme \<Rightarrow> uint8 list \<Rightarrow> nat \<Rightarrow> 'a list \<Rightarrow> bool" where
  "exact_units RH T bs n [] = (n = 0)"
| "exact_units RH T bs n (u # us) =
     (0 < n \<and>
      (case RH (BoxReader_new bs n) of
         (False, err, cr) \<Rightarrow> False
       | (True, err, cr) \<Rightarrow>
           m_size cr \<le> n \<and> Parse T (T_default T) cr = (True, u) \<and>
           exact_units RH T (drop (m_size cr) bs) (n - m_size cr) us))"

text \<open>\<open>consume RH T k r cs\<close>: the reader and the vector after \<open>k\<close> full passes of the loop.\<close>

fun consume ::
  "header_reader \<Rightarrow> ('a, 'b) Box_scheme \<Rightarrow> nat \<Rightarrow> BoxReader \<Rightarrow> 'a list \<Rightarrow>
   (BoxReader \<times> 'a list) option" where
  "consume RH T 0 r cs = Some (r, cs)"
| "consume RH T (Suc k) r cs =
     (if m_pos r < m_size r then
        (case ReadAllChildren_body RH T r cs of
           Continue r' cs' \<Rightarrow> consume RH T k r' cs'
         | ReturnFalse r' cs' \<Rightarrow> None)
      else None)"

subsection \<open>Headers and top-level boxes\<close>

text \<open>
  \<open>ReadHeader\<close>, \<open>StartTopLevelBox\<close> and \<open>ReadTopLevelBox\<close> are declared in the
  header and defined in box_reader.cc, which is not among the sources. They are modelled
  after the spec (4.1, 4.2, 7 and the scenarios of 8) and the comments of their
  declarations: a header is a 32-bit size and a 4-byte tag, 8 bytes; one value of the
  size field announces a 64-bit size in 8 more bytes; fewer bytes than the header needs
  is a lack of data (false, \<open>*err\<close> false); a declared size below the header bytes
  consumed or above the largest size is malformed (false, \<open>*err\<close> true); otherwise the
  reader takes the tag and the declared size.
\<close>

text \<open>
  Modelled from the spec: the two numbers of the format that the spec does not fix, the
  value of the size field that announces the 64-bit size and the largest size accepted.
\<close>

record header_format =
  extended_marker :: nat
  max_box_size :: nat

text \<open>Modelled from the spec: a number of the header, read big-endian.\<close>

definition be_value :: "uint8 list \<Rightarrow> nat" where
  "be_value bs = foldl (\<lambda>a b. a * 256 + unat b) 0 bs"

fun set_type :: "FourCC \<Rightarrow> BoxReader \<Rightarrow> BoxReader" where
  "set_type t (BoxReader b s p _ c sc) = BoxReader b s p t c sc"

fun set_size :: "nat \<Rightarrow> BoxReader \<Rightarrow> BoxReader" where
  "set_size s (BoxReader b _ p t c sc) = BoxReader b s p t c sc"

text \<open>
  Modelled from the spec: the reads of \<open>BufferReader\<close> (\<open>Read4\<close>, \<open>Read8\<close>), which
  are not among the sources: the number in the next \<open>n\<close> bytes, and the reader after
  them.
\<close>

definition Read_bytes :: "nat \<Rightarrow> BoxReader \<Rightarrow> nat \<times> BoxReader" where
  "Read_bytes n r = (be_value (take n (drop (m_pos r) (m_buf r))), set_pos (m_pos r + n) r)"

text \<open>
  Modelled from the spec: the check of the declared size \<open>sz\<close> once the header is read;
  \<open>m_pos r\<close> is then the number of header bytes consumed.
\<close>

definition check_size :: "header_format \<Rightarrow> nat \<Rightarrow> BoxReader \<Rightarrow> bool \<times> bool \<times> BoxReader" where
  "check_size F sz r =
     (if sz < m_pos r \<or> max_box_size F < sz then (False, True, r)
      else (True, False, set_size sz r))"

text \<open>
  Modelled from the spec: \<open>BoxReader::ReadHeader\<close> (box_reader.cc is not among the
  sources). The value returned, \<open>*err\<close> and the reader after the call.
\<close>

definition ReadHeader :: "header_format \<Rightarrow> BoxReader \<Rightarrow> bool \<times> bool \<times> BoxReader" where
  "ReadHeader F r =
     (if \<not> HasBytes 8 r then (False, False, r)
      else
        let (size32, r1) = Read_bytes 4 r;
            (tag, r2) = Read_bytes 4 r1;
            r3 = set_type (of_nat tag) r2
        in if size32 = extended_marker F then
             (if \<not> HasBytes 8 r3 then (False, False, r3)
              else let (size64, r4) = Read_bytes 8 r3 in check_size F size64 r4)
           else check_size F size32 r3)"

text \<open>
  What a complete header declares, in the spec's words: the declared size and the number
  of header bytes, or nothing while the header is not complete in the first
  \<open>buf_size\<close> bytes.
\<close>

definition declared_header :: "header_format \<Rightarrow> uint8 list \<Rightarrow> nat \<Rightarrow> (nat \<times> nat) option" where
  "declared_header F buf buf_size =
     (if buf_size < 8 then None
      else if be_value (take 4 buf) = extended_marker F then
        (if buf_size < 16 then None else Some (be_value (take 8 (drop 8 buf)), 16))
      else Some (be_value (take 4 buf), 8))"

text \<open>
  Modelled from the spec: \<open>FOURCC_MDAT\<close> of media/mp4/fourccs.h, which is not among
  the sources; the four characters of the media-data tag.
\<close>

definition FOURCC_MDAT :: FourCC where
  "FOURCC_MDAT = 0x6d646174"

text \<open>
  Modelled from the spec: \<open>BoxReader::StartTopLevelBox\<close> (box_reader.cc is not among the
  sources). The value returned, \<open>*err\<close>, and \<open>*type\<close> with \<open>*box_size\<close> when they are
  filled.
\<close>

definition StartTopLevelBox ::
  "header_format \<Rightarrow> uint8 list \<Rightarrow> nat \<Rightarrow> bool \<times> bool \<times> (FourCC \<times> nat) option" where
  "StartTopLevelBox F buf buf_size =
     (case ReadHeader F (BoxReader_new buf buf_size) of
        (False, err, reader) \<Rightarrow> (False, err, None)
      | (True, err, reader) \<Rightarrow> (True, err, Some (m_type reader, m_size reader)))"

text \<open>
  Modelled from the spec: \<open>BoxReader::ReadTopLevelBox\<close> (box_reader.cc is not among the
  sources). The reader returned (\<open>None\<close> is NULL) and \<open>*err\<close>.
\<close>

definition ReadTopLevelBox ::
  "header_format \<Rightarrow> uint8 list \<Rightarrow> nat \<Rightarrow> BoxReader option \<times> bool" where
  "ReadTopLevelBox F buf buf_size =
     (case ReadHeader F (BoxReader_new buf buf_size) of
        (False, err, reader) \<Rightarrow> (None, err)
      | (True, err, reader) \<Rightarrow>
          (if m_type reader = FOURCC_MDAT then (Some reader, err)
           else if m_size reader \<le> buf_size then (Some reader, err)
           else (None, err)))"

subsection \<open>ScanChildren\<close>


text \<open>
  Modelled from the spec: one step of the scan. The header at the cursor is read; a
  header that is not accepted, or a child that reaches past the end of the body, is a
  failure; otherwise the child reader enters the multimap under its tag and the cursor
  moves by the declared size.
\<close>

datatype scan_step = ScanNext BoxReader | ScanFailed

definition ScanChildren_step :: "header_reader \<Rightarrow> BoxReader \<Rightarrow> scan_step" where
  "ScanChildren_step RH r =
     (let (ok, err, child) = RH (BoxReader_new (drop (m_pos r) (m_buf r)) (m_size r - m_pos r))
      in if \<not> ok then ScanFailed
         else if m_size r < m_pos r + m_size child then ScanFailed
         else ScanNext
                (set_pos (m_pos r + m_size child)
                   (set_children (insert_mm (m_type child, Live child) (m_children r)) r)))"

text \<open>
  Modelled from the spec: the scan goes on until the cursor reaches the end of the
  body; an empty body is a success.
\<close>

partial_function (option) ScanChildren_loop :: "header_reader \<Rightarrow> BoxReader \<Rightarrow> (bool \<times> BoxReader) option" where
  "ScanChildren_loop RH r =
     (if m_pos r < m_size r then
        (case ScanChildren_step RH r of
           ScanFailed \<Rightarrow> Some (False, r)
         | ScanNext r' \<Rightarrow> ScanChildren_loop RH r')
      else Some (True, r))"


subsection \<open>A unit class and readers for the examples\<close>

text \<open>
  \<open>ByteBox t\<close> is a box class of tag \<open>t\<close> with one payload byte: \<open>Parse\<close> reads
  the byte at the cursor of the child reader and fails when the box has no payload.
\<close>

definition ByteBox :: "FourCC \<Rightarrow> uint8 Box" where
  "ByteBox t =
     \<lparr>T_default = 0,
      BoxType = (\<lambda>c. t),
      Parse = (\<lambda>c rd. if m_pos rd < m_size rd \<and> m_pos rd < length (m_buf rd)
                       then (True, m_buf rd ! m_pos rd) else (False, c))\<rparr>"

definition FOURCC_TRAK :: FourCC where
  "FOURCC_TRAK = 0x7472616b"

definition FOURCC_FREE :: FourCC where
  "FOURCC_FREE = 0x66726565"

text \<open>The bytes of a box: a 32-bit size, the tag, the payload.\<close>

definition trak_bytes :: "uint8 \<Rightarrow> uint8 list \<Rightarrow> uint8 list" where
  "trak_bytes n payload = [0, 0, 0, n, 0x74, 0x72, 0x61, 0x6b] @ payload"

text \<open>A child reader as a scan leaves it: over the bytes of the box, after its header.\<close>

definition child_of :: "FourCC \<Rightarrow> uint8 list \<Rightarrow> BoxReader" where
  "child_of t bytes = BoxReader bytes (length bytes) 8 t [] False"

definition trak_a :: BoxReader where
  "trak_a = child_of FOURCC_TRAK (trak_bytes 9 [7])"

definition trak_b :: BoxReader where
  "trak_b = child_of FOURCC_TRAK (trak_bytes 9 [9])"

definition trak_empty :: BoxReader where
  "trak_empty = child_of FOURCC_TRAK (trak_bytes 8 [])"

definition free_c :: BoxReader where
  "free_c = child_of FOURCC_FREE [0, 0, 0, 8, 0x66, 0x72, 0x65, 0x65]"

text \<open>A scanned reader whose scan discovered the children \<open>ds\<close> in this order.\<close>

definition scanned_reader :: "(FourCC \<times> BoxReader) list \<Rightarrow> BoxReader" where
  "scanned_reader ds =
     BoxReader [] 0 0 FOURCC_NULL (multimap_of (map (\<lambda>(k, rd). (k, Live rd)) ds)) True"

text \<open>A reader that was not scanned, over a body of \<open>bytes\<close>.\<close>

definition body_reader :: "uint8 list \<Rightarrow> BoxReader" where
  "body_reader bytes = BoxReader bytes (length bytes) 0 FOURCC_NULL [] False"

text \<open>The format of the spec's scenario: the size field 0xFFFFFFFF announces a 64-bit size.\<close>

definition scenario_format :: header_format where
  "scenario_format = \<lparr>extended_marker = 0xFFFFFFFF, max_box_size = 0x7FFFFFFF\<rparr>"

text \<open>The body of the spec's scenario: a box of 16 bytes and a box of 12 bytes, 28 bytes.\<close>

definition scenario_body :: "uint8 list" where
  "scenario_body = trak_bytes 16 [7, 0, 0, 0, 0, 0, 0, 0] @ trak_bytes 12 [9, 0, 0, 0]"

text \<open>A body of 18 bytes: a box of 9 bytes, then a box that declares 12 bytes where 9 remain.\<close>

definition overrun_body :: "uint8 list" where
  "overrun_body = trak_bytes 9 [7] @ trak_bytes 12 [5]"


text \<open>A scanned reader with three children of one tag, the second of which has no payload.\<close>

definition failing_reader :: BoxReader where
  "failing_reader =
     scanned_reader [(FOURCC_TRAK, trak_a), (FOURCC_TRAK, trak_empty), (FOURCC_TRAK, trak_b)]"

text \<open>The reader \<open>failing_reader\<close> as a failed \<open>TryReadChildren\<close> leaves it.\<close>

definition after_failure :: BoxReader where
  "after_failure =
     BoxReader [] 0 0 FOURCC_NULL
       [(FOURCC_TRAK, Deleted), (FOURCC_TRAK, Live trak_empty), (FOURCC_TRAK, Live trak_b)] True"

text \<open>The header of a media-data box that declares \<open>n\<close> bytes.\<close>

definition mdat_header :: "uint8 \<Rightarrow> uint8 list" where
  "mdat_header n = [0, 0, 0, n, 0x6d, 0x64, 0x61, 0x74]"


section \<open>Lemmas\<close>

subsection \<open>The fields of a reader\<close>

lemma sel_set_pos [simp]:
  "m_pos (set_pos p r) = p" "m_size (set_pos p r) = m_size r" "m_buf (set_pos p r) = m_buf r"
  "m_scanned (set_pos p r) = m_scanned r" "m_children (set_pos p r) = m_children r"
  "m_type (set_pos p r) = m_type r"
  by (cases r; simp)+

lemma sel_set_scanned [simp]:
  "m_pos (set_scanned b r) = m_pos r" "m_size (set_scanned b r) = m_size r"
  "m_buf (set_scanned b r) = m_buf r" "m_scanned (set_scanned b r) = b"
  "m_children (set_scanned b r) = m_children r" "m_type (set_scanned b r) = m_type r"
  by (cases r; simp)+

lemma sel_set_size [simp]:
  "m_pos (set_size s r) = m_pos r" "m_size (set_size s r) = s" "m_buf (set_size s r) = m_buf r"
  "m_scanned (set_size s r) = m_scanned r" "m_children (set_size s r) = m_children r"
  "m_type (set_size s r) = m_type r"
  by (cases r; simp)+

lemma sel_set_type [simp]:
  "m_pos (set_type t r) = m_pos r" "m_size (set_type t r) = m_size r"
  "m_buf (set_type t r) = m_buf r" "m_scanned (set_type t r) = m_scanned r"
  "m_children (set_type t r) = m_children r" "m_type (set_type t r) = t"
  by (cases r; simp)+

lemma sel_set_children [simp]:
  "m_pos (set_children c r) = m_pos r" "m_size (set_children c r) = m_size r"
  "m_buf (set_children c r) = m_buf r" "m_scanned (set_children c r) = m_scanned r"
  "m_children (set_children c r) = c" "m_type (set_children c r) = m_type r"
  by (cases r; simp)+

lemma set_pos_end: "m_pos r = m_size r \<Longrightarrow> set_pos (m_size r) r = r"
  by (cases r) simp

lemma set_pos_twice: "set_pos p (set_pos q r) = set_pos p r"
  by (cases r) simp


subsection \<open>The multimap\<close>

text \<open>
  In a multimap the entries of a key are the range from \<open>lower_bound\<close> to
  \<open>upper_bound\<close>; erasing the range leaves the other entries. An insertion keeps the
  order of the keys and puts the entry last among those of its key, so the entries of a
  key stand in the order of their insertion. Every list ordered by key is the multimap
  of itself: \<open>multimap_of\<close> reaches every state of a multimap.
\<close>

lemma lower_le_upper: "lower_bound k m \<le> upper_bound k m"
  unfolding lower_bound_def upper_bound_def
  by (induction m) auto

lemma upper_bound_le_length: "upper_bound k m \<le> length m"
  by (simp add: upper_bound_def length_takeWhile_le)

lemma equal_range_sorted:
  "sorted (map fst m) \<Longrightarrow>
   take (upper_bound k m - lower_bound k m) (drop (lower_bound k m) m) = filter (\<lambda>e. fst e = k) m"
proof (induction m)
  case Nil
  then show ?case by (simp add: lower_bound_def upper_bound_def)
next
  case (Cons e m)
  have ge: "\<forall>x\<in>set m. fst e \<le> fst x" using Cons.prems by auto
  have IH: "take (upper_bound k m - lower_bound k m) (drop (lower_bound k m) m) = filter (\<lambda>e. fst e = k) m"
    using Cons by simp
  consider (lt) "fst e < k" | (eq) "fst e = k" | (gt) "k < fst e" by fastforce
  then show ?case
  proof cases
    case lt
    then have "fst e \<le> k" "fst e \<noteq> k" by auto
    then show ?thesis using IH lt by (simp add: lower_bound_def upper_bound_def)
  next
    case eq
    have "takeWhile (\<lambda>x. fst x < k) m = []"
      using ge eq by (cases m) auto
    then have lb0: "lower_bound k m = 0" by (simp add: lower_bound_def)
    show ?thesis using IH eq lb0 by (simp add: lower_bound_def upper_bound_def)
  next
    case gt
    have "filter (\<lambda>x. fst x = k) m = []"
      using ge gt by (auto simp: filter_empty_conv)
    moreover have "\<not> fst e \<le> k" "\<not> fst e < k" "fst e \<noteq> k" using gt by auto
    ultimately show ?thesis by (simp add: lower_bound_def upper_bound_def)
  qed
qed

lemma equal_range_length:
  assumes "sorted (map fst m)"
  shows "upper_bound k m - lower_bound k m = length (filter (\<lambda>e. fst e = k) m)"
proof -
  have "length (take (upper_bound k m - lower_bound k m) (drop (lower_bound k m) m)) =
        upper_bound k m - lower_bound k m"
    using upper_bound_le_length [of k m] by simp
  then show ?thesis using equal_range_sorted [OF assms, of k] by simp
qed

lemma erase_sorted:
  "sorted (map fst m) \<Longrightarrow>
   erase (lower_bound k m) (upper_bound k m) m = filter (\<lambda>e. fst e \<noteq> k) m"
proof (induction m)
  case Nil
  then show ?case by (simp add: lower_bound_def upper_bound_def erase_def)
next
  case (Cons e m)
  have ge: "\<forall>x\<in>set m. fst e \<le> fst x" using Cons.prems by auto
  have IH: "take (lower_bound k m) m @ drop (upper_bound k m) m = filter (\<lambda>e. fst e \<noteq> k) m"
    using Cons by (simp add: erase_def)
  consider (lt) "fst e < k" | (eq) "fst e = k" | (gt) "k < fst e" by fastforce
  then show ?case
  proof cases
    case lt
    then have "fst e \<le> k" "fst e \<noteq> k" by auto
    then show ?thesis using IH lt by (simp add: lower_bound_def upper_bound_def erase_def)
  next
    case eq
    have "takeWhile (\<lambda>x. fst x < k) m = []"
      using ge eq by (cases m) auto
    then have lb0: "lower_bound k m = 0" by (simp add: lower_bound_def)
    show ?thesis using IH eq lb0 by (simp add: lower_bound_def upper_bound_def erase_def)
  next
    case gt
    have "filter (\<lambda>x. fst x \<noteq> k) m = m"
      using ge gt by (auto simp: filter_id_conv)
    moreover have "\<not> fst e \<le> k" "\<not> fst e < k" "fst e \<noteq> k" using gt by auto
    ultimately show ?thesis by (simp add: lower_bound_def upper_bound_def erase_def)
  qed
qed

lemma take_upper_bound:
  "sorted (map fst m) \<Longrightarrow> take (upper_bound k m) m = filter (\<lambda>e. fst e \<le> k) m"
proof (induction m)
  case Nil
  then show ?case by (simp add: upper_bound_def)
next
  case (Cons e m)
  have ge: "\<forall>x\<in>set m. fst e \<le> fst x" using Cons.prems by auto
  show ?case
  proof (cases "fst e \<le> k")
    case True
    then show ?thesis using Cons by (simp add: upper_bound_def)
  next
    case False
    then have "filter (\<lambda>x. fst x \<le> k) m = []"
      using ge by (auto simp: filter_empty_conv)
    then show ?thesis using False by (simp add: upper_bound_def)
  qed
qed

lemma drop_upper_bound:
  "sorted (map fst m) \<Longrightarrow> drop (upper_bound k m) m = filter (\<lambda>e. k < fst e) m"
proof (induction m)
  case Nil
  then show ?case by (simp add: upper_bound_def)
next
  case (Cons e m)
  have ge: "\<forall>x\<in>set m. fst e \<le> fst x" using Cons.prems by auto
  show ?case
  proof (cases "fst e \<le> k")
    case True
    then show ?thesis using Cons by (simp add: upper_bound_def)
  next
    case False
    then have "filter (\<lambda>x. k < fst x) m = m"
      using ge by (auto simp: filter_id_conv)
    then show ?thesis using False by (simp add: upper_bound_def)
  qed
qed

lemma insert_mm_sorted:
  assumes "sorted (map fst m)"
  shows "insert_mm e m = filter (\<lambda>x. fst x \<le> fst e) m @ e # filter (\<lambda>x. fst e < fst x) m"
  using assms by (simp add: insert_mm_def take_upper_bound drop_upper_bound)

lemma sorted_insert_mm:
  assumes "sorted (map fst m)"
  shows "sorted (map fst (insert_mm e m))"
  using assms
  by (auto simp: insert_mm_sorted sorted_append sorted_filter intro: less_imp_le order_trans)

lemma filter_insert_mm:
  assumes "sorted (map fst m)"
  shows "filter (\<lambda>x. fst x = k) (insert_mm e m) =
         filter (\<lambda>x. fst x = k) m @ (if fst e = k then [e] else [])"
proof -
  have a: "filter (\<lambda>x. fst x = k) m =
        filter (\<lambda>x. fst x = k) (filter (\<lambda>x. fst x \<le> fst e) m) @ filter (\<lambda>x. fst x = k) (filter (\<lambda>x. fst e < fst x) m)"
    using assms
    by (metis filter_append append_take_drop_id take_upper_bound drop_upper_bound)
  show ?thesis
  proof (cases "fst e = k")
    case True
    then have "filter (\<lambda>x. fst x = k) (filter (\<lambda>x. fst e < fst x) m) = []"
      by (auto simp: filter_empty_conv)
    then show ?thesis using a True by (simp add: insert_mm_sorted [OF assms])
  next
    case False
    then show ?thesis using a by (simp add: insert_mm_sorted [OF assms])
  qed
qed

lemma multimap_of_snoc: "multimap_of (ds @ [e]) = insert_mm e (multimap_of ds)"
  by (simp add: multimap_of_def)

lemma sorted_multimap_of: "sorted (map fst (multimap_of ds))"
proof (induction ds rule: rev_induct)
  case Nil
  then show ?case by (simp add: multimap_of_def)
next
  case (snoc e ds)
  then show ?case by (simp add: multimap_of_snoc sorted_insert_mm)
qed

lemma filter_multimap_of:
  "filter (\<lambda>x. fst x = k) (multimap_of ds) = filter (\<lambda>x. fst x = k) ds"
proof (induction ds rule: rev_induct)
  case Nil
  then show ?case by (simp add: multimap_of_def)
next
  case (snoc e ds)
  then show ?case
    by (simp add: multimap_of_snoc filter_insert_mm [OF sorted_multimap_of])
qed

lemma multimap_of_sorted_id: "sorted (map fst m) \<Longrightarrow> multimap_of m = m"
proof (induction m rule: rev_induct)
  case Nil
  then show ?case by (simp add: multimap_of_def)
next
  case (snoc e m)
  then have s: "sorted (map fst m)" and le: "\<forall>x\<in>set m. fst x \<le> fst e"
    by (auto simp: sorted_append)
  have "filter (\<lambda>x. fst x \<le> fst e) m = m" "filter (\<lambda>x. fst e < fst x) m = []"
    using le by (auto simp: filter_id_conv filter_empty_conv)
  then show ?case using snoc s by (simp add: multimap_of_snoc insert_mm_sorted)
qed

subsection \<open>TryReadChildren\<close>

lemma resize_one: "resize d (Suc 0) [] = [d]"
  by (simp add: resize_def)

lemma resize_twice: "resize d n [d] = replicate n d"
  by (cases n) (simp_all add: resize_def)

lemma parse_range_length:
  "parse_range T es cs = RangeDone es' cs' \<or> parse_range T es cs = RangeFailed es' cs' \<Longrightarrow>
   length cs' = length cs"
proof (induction T es cs arbitrary: es' cs' rule: parse_range.induct)
  case (3 T k rd es c cs)
  then show ?case
    by (auto split: prod.splits bool.splits range_result.splits)
qed auto

lemma parse_range_defined:
  "length cs = length es \<Longrightarrow> \<forall>e\<in>set es. snd e \<noteq> Deleted \<Longrightarrow> parse_range T es cs \<noteq> RangeUndefined"
proof (induction T es cs rule: parse_range.induct)
  case (3 T k rd es c cs)
  then show ?case by (auto split: prod.splits bool.splits range_result.splits)
qed auto

lemma parse_range_done:
  "parse_range T es (replicate (length es) d) = RangeDone es' cs' \<Longrightarrow>
   list_all2 (\<lambda>e c. \<exists>rd. snd e = Live rd \<and> Parse T d rd = (True, c)) es cs'"
proof (induction es arbitrary: es' cs')
  case Nil
  then show ?case by simp
next
  case (Cons e es)
  obtain k p where e: "e = (k, p)" by (cases e)
  show ?case
  proof (cases p)
    case Deleted
    then show ?thesis using Cons.prems e by simp
  next
    case (Live rd)
    then show ?thesis using Cons.prems e Cons.IH
      by (auto split: prod.splits bool.splits range_result.splits)
  qed
qed

lemma parse_range_all_ok:
  "\<forall>(k, rd) \<in> set ds. fst (Parse T d rd) \<Longrightarrow>
   parse_range T (map (\<lambda>(k, rd). (k, Live rd)) ds) (replicate (length ds) d) =
   RangeDone (map (\<lambda>(k, rd). (k, Deleted)) ds) (map (\<lambda>(k, rd). snd (Parse T d rd)) ds)"
proof (induction ds)
  case Nil
  then show ?case by simp
next
  case (Cons x ds)
  obtain k rd where x: "x = (k, rd)" by (cases x)
  obtain c where p: "Parse T d rd = (True, c)"
    using Cons.prems x by (cases "Parse T d rd") auto
  show ?case using Cons x p by simp
qed

lemma TryReadChildren_sorted:
  assumes "m_scanned r" and "sorted (map fst (m_children r))"
  shows "TryReadChildren T r [] =
    (case parse_range T (filter (\<lambda>e. fst e = BoxType T (T_default T)) (m_children r))
            (replicate (length (filter (\<lambda>e. fst e = BoxType T (T_default T)) (m_children r)))
               (T_default T)) of
       RangeFailed es cs \<Rightarrow>
         Returned False
           (set_children
              (take (lower_bound (BoxType T (T_default T)) (m_children r)) (m_children r) @ es @
               drop (upper_bound (BoxType T (T_default T)) (m_children r)) (m_children r)) r)
           cs
     | RangeDone es cs \<Rightarrow>
         Returned True
           (set_children (filter (\<lambda>e. fst e \<noteq> BoxType T (T_default T)) (m_children r)) r) cs
     | RangeUndefined \<Rightarrow> Undefined)"
proof -
  let ?m = "m_children r"
  let ?tag = "BoxType T (T_default T)"
  have a: "take (upper_bound ?tag ?m - lower_bound ?tag ?m) (drop (lower_bound ?tag ?m) ?m) =
           filter (\<lambda>e. fst e = ?tag) ?m"
    using assms(2) by (rule equal_range_sorted)
  have b: "upper_bound ?tag ?m - lower_bound ?tag ?m = length (filter (\<lambda>e. fst e = ?tag) ?m)"
    using assms(2) by (rule equal_range_length)
  have c: "erase (lower_bound ?tag ?m) (upper_bound ?tag ?m) ?m = filter (\<lambda>e. fst e \<noteq> ?tag) ?m"
    using assms(2) by (rule erase_sorted)
  have "TryReadChildren T r [] =
    (case parse_range T
            (take (upper_bound ?tag ?m - lower_bound ?tag ?m) (drop (lower_bound ?tag ?m) ?m))
            (replicate (upper_bound ?tag ?m - lower_bound ?tag ?m) (T_default T)) of
       RangeFailed es cs \<Rightarrow>
         Returned False
           (set_children (take (lower_bound ?tag ?m) ?m @ es @ drop (upper_bound ?tag ?m) ?m) r) cs
     | RangeDone es cs \<Rightarrow>
         Returned True (set_children (erase (lower_bound ?tag ?m) (upper_bound ?tag ?m) ?m) r) cs
     | RangeUndefined \<Rightarrow> Undefined)"
    using assms(1)
    by (simp add: TryReadChildren_def Let_def resize_twice resize_one
        cong: range_result.case_cong)
  then show ?thesis unfolding a c unfolding b .
qed

lemma differ_iff:
  "ReadChildren T r cs \<noteq> TryReadChildren T r cs \<longleftrightarrow> (\<exists>r'. TryReadChildren T r cs = Returned True r' [])"
  by (cases "TryReadChildren T r cs") (auto simp: ReadChildren_def)



subsection \<open>ReadAllChildren\<close>

lemma body_Continue:
  "ReadAllChildren_body RH T r cs = Continue r' cs' \<longleftrightarrow>
   (\<exists>err cr c. RH (BoxReader_new (drop (m_pos r) (m_buf r)) (m_size r - m_pos r)) = (True, err, cr) \<and>
      Parse T (T_default T) cr = (True, c) \<and> m_pos r + m_size cr \<le> m_size r \<and>
      r' = set_pos (m_pos r + m_size cr) r \<and> cs' = cs @ [c])"
  by (auto simp: ReadAllChildren_body_def SkipBytes_def HasBytes_def Let_def
      split: prod.splits bool.splits if_splits)

lemma body_ReturnFalse:
  "ReadAllChildren_body RH T r cs = ReturnFalse r' cs' \<Longrightarrow>
   r' = r \<and> (cs' = cs \<or> (\<exists>c. cs' = cs @ [c]))"
  by (auto simp: ReadAllChildren_body_def SkipBytes_def HasBytes_def Let_def
      split: prod.splits bool.splits if_splits)

lemma loop_exact:
  "exact_units RH T (drop (m_pos r) (m_buf r)) (m_size r - m_pos r) us \<Longrightarrow> m_pos r \<le> m_size r \<Longrightarrow>
   ReadAllChildren_loop RH T r cs = Some (Returned True (set_pos (m_size r) r) (cs @ us))"
proof (induction us arbitrary: r cs)
  case Nil
  then have "m_pos r = m_size r" by simp
  then show ?case
    by (subst ReadAllChildren_loop.simps) (simp add: set_pos_end)
next
  case (Cons u us)
  let ?n = "m_size r - m_pos r"
  from Cons.prems(1) obtain err cr where
    n: "0 < ?n" and rh: "RH (BoxReader_new (drop (m_pos r) (m_buf r)) ?n) = (True, err, cr)"
    and fit: "m_size cr \<le> ?n" and p: "Parse T (T_default T) cr = (True, u)"
    and rest: "exact_units RH T (drop (m_size cr) (drop (m_pos r) (m_buf r))) (?n - m_size cr) us"
    by (auto split: prod.splits bool.splits)
  let ?r2 = "set_pos (m_pos r + m_size cr) r"
  have b: "ReadAllChildren_body RH T r cs = Continue ?r2 (cs @ [u])"
    using rh p fit n by (auto simp: body_Continue)
  have "ReadAllChildren_loop RH T ?r2 (cs @ [u]) =
        Some (Returned True (set_pos (m_size ?r2) ?r2) ((cs @ [u]) @ us))"
  proof (rule Cons.IH)
    show "exact_units RH T (drop (m_pos ?r2) (m_buf ?r2)) (m_size ?r2 - m_pos ?r2) us"
      using rest by (simp add: add.commute)
    show "m_pos ?r2 \<le> m_size ?r2" using fit n by simp
  qed
  then have "ReadAllChildren_loop RH T ?r2 (cs @ [u]) =
        Some (Returned True (set_pos (m_size r) r) (cs @ u # us))"
    by (simp add: set_pos_twice)
  then show ?case using b n
    by (subst ReadAllChildren_loop.simps) simp
qed

lemma loop_success:
  assumes "ReadAllChildren_loop RH T r cs = Some (Returned True r' cs')" and "m_pos r \<le> m_size r"
  shows "\<exists>us. exact_units RH T (drop (m_pos r) (m_buf r)) (m_size r - m_pos r) us \<and>
            cs' = cs @ us \<and> r' = set_pos (m_size r) r"
proof -
  let ?Q = "\<lambda>RH T r cs y. \<forall>r' cs'. y = Returned True r' cs' \<longrightarrow> m_pos r \<le> m_size r \<longrightarrow>
      (\<exists>us. exact_units RH T (drop (m_pos r) (m_buf r)) (m_size r - m_pos r) us \<and>
            cs' = cs @ us \<and> r' = set_pos (m_size r) r)"
  have "?Q RH T r cs (Returned True r' cs')"
  proof (rule ReadAllChildren_loop.raw_induct [where P = ?Q, OF _ assms(1)])
    fix loop RH T r cs y
    assume IH: "\<And>RH T r cs y. loop RH T r cs = Some y \<Longrightarrow> ?Q RH T r cs y"
      and eq: "(if m_pos r < m_size r then
                  (case ReadAllChildren_body RH T r cs of
                     Continue r' children' \<Rightarrow> loop RH T r' children'
                   | ReturnFalse r' children' \<Rightarrow> Some (Returned False r' children'))
                else Some (Returned True r cs)) = Some y"
    show "?Q RH T r cs y"
    proof (intro allI impI)
      fix r' cs'
      assume y: "y = Returned True r' cs'" and le: "m_pos r \<le> m_size r"
      show "\<exists>us. exact_units RH T (drop (m_pos r) (m_buf r)) (m_size r - m_pos r) us \<and>
              cs' = cs @ us \<and> r' = set_pos (m_size r) r"
      proof (cases "m_pos r < m_size r")
        case False
        then have "m_pos r = m_size r" using le by simp
        moreover have "r' = r" "cs' = cs" using eq False y by auto
        ultimately show ?thesis
          by (intro exI [of _ "[]"]) (simp add: set_pos_end)
      next
        case True
        then obtain r2 cs2 where b: "ReadAllChildren_body RH T r cs = Continue r2 cs2"
          and l: "loop RH T r2 cs2 = Some y"
          using eq y by (auto split: iteration.splits)
        from b obtain err cr c where
          rh: "RH (BoxReader_new (drop (m_pos r) (m_buf r)) (m_size r - m_pos r)) = (True, err, cr)"
          and p: "Parse T (T_default T) cr = (True, c)" and fit: "m_pos r + m_size cr \<le> m_size r"
          and r2: "r2 = set_pos (m_pos r + m_size cr) r" and cs2: "cs2 = cs @ [c]"
          by (auto simp: body_Continue)
        have "m_pos r2 \<le> m_size r2" using fit r2 by simp
        with IH [OF l] y obtain us where
          ex: "exact_units RH T (drop (m_pos r2) (m_buf r2)) (m_size r2 - m_pos r2) us"
          and c': "cs' = cs2 @ us" and r': "r' = set_pos (m_size r2) r2"
          by blast
        have "exact_units RH T (drop (m_pos r) (m_buf r)) (m_size r - m_pos r) (c # us)"
          using ex rh p fit True r2 by (simp add: add.commute)
        moreover have "cs' = cs @ c # us" using c' cs2 by simp
        moreover have "r' = set_pos (m_size r) r" using r' r2 by (simp add: set_pos_twice)
        ultimately show ?thesis by blast
      qed
    qed
  qed
  then show ?thesis using assms(2) by simp
qed

text \<open>
  The loop returns when every header that \<open>RH\<close> accepts declares a size above 0: each
  pass then moves the cursor forward. A header of size 0 would be read again for ever.
\<close>

lemma loop_returns:
  assumes progress: "\<And>x err cr. RH x = (True, err, cr) \<Longrightarrow> 0 < m_size cr"
  shows "\<exists>ok r' cs'. ReadAllChildren_loop RH T r cs = Some (Returned ok r' cs')"
proof (induction "m_size r - m_pos r" arbitrary: r cs rule: less_induct)
  case less
  show ?case
  proof (cases "m_pos r < m_size r")
    case False
    then show ?thesis by (subst ReadAllChildren_loop.simps) auto
  next
    case True
    show ?thesis
    proof (cases "ReadAllChildren_body RH T r cs")
      case (ReturnFalse r2 cs2)
      then show ?thesis using True by (subst ReadAllChildren_loop.simps) auto
    next
      case (Continue r2 cs2)
      then obtain err cr c where
        rh: "RH (BoxReader_new (drop (m_pos r) (m_buf r)) (m_size r - m_pos r)) = (True, err, cr)"
        and fit: "m_pos r + m_size cr \<le> m_size r"
        and r2: "r2 = set_pos (m_pos r + m_size cr) r"
        by (auto simp: body_Continue)
      have "0 < m_size cr" using progress rh by blast
      then have "m_size r2 - m_pos r2 < m_size r - m_pos r" using r2 fit True by simp
      from less [OF this] obtain ok r' cs' where
        "ReadAllChildren_loop RH T r2 cs2 = Some (Returned ok r' cs')" by blast
      then show ?thesis using True Continue by (subst ReadAllChildren_loop.simps) simp
    qed
  qed
qed

lemma consume_facts:
  "consume RH T k r cs = Some (r1, cs1) \<Longrightarrow>
   m_scanned r1 = m_scanned r \<and> m_pos r \<le> m_pos r1 \<and> length cs1 = length cs + k \<and>
   take (length cs) cs1 = cs"
proof (induction k arbitrary: r cs)
  case 0
  then show ?case by simp
next
  case (Suc k)
  from Suc.prems obtain r2 cs2 where
    b: "ReadAllChildren_body RH T r cs = Continue r2 cs2"
    and c: "consume RH T k r2 cs2 = Some (r1, cs1)"
    by (auto split: if_splits iteration.splits)
  from b obtain c' cr where "r2 = set_pos (m_pos r + m_size cr) r" "cs2 = cs @ [c']"
    by (auto simp: body_Continue)
  moreover note Suc.IH [OF c]
  ultimately show ?case by (auto simp: take_Suc_conv_app_nth dest: arg_cong [where f = "take (length cs)"])
qed


lemma loop_consume:
  assumes "ReadAllChildren_loop RH T r cs = Some (Returned ok r' cs')"
  shows "\<exists>k cs1. consume RH T k r cs = Some (r', cs1) \<and>
           (cs' = cs1 \<or> (\<not> ok \<and> (\<exists>c. cs' = cs1 @ [c])))"
proof -
  let ?Q = "\<lambda>RH T r cs y. \<forall>ok r' cs'. y = Returned ok r' cs' \<longrightarrow>
      (\<exists>k cs1. consume RH T k r cs = Some (r', cs1) \<and>
           (cs' = cs1 \<or> (\<not> ok \<and> (\<exists>c. cs' = cs1 @ [c]))))"
  have "?Q RH T r cs (Returned ok r' cs')"
  proof (rule ReadAllChildren_loop.raw_induct [where P = ?Q, OF _ assms(1)])
    fix loop RH T r cs y
    assume IH: "\<And>RH T r cs y. loop RH T r cs = Some y \<Longrightarrow> ?Q RH T r cs y"
      and eq: "(if m_pos r < m_size r then
                  (case ReadAllChildren_body RH T r cs of
                     Continue r' children' \<Rightarrow> loop RH T r' children'
                   | ReturnFalse r' children' \<Rightarrow> Some (Returned False r' children'))
                else Some (Returned True r cs)) = Some y"
    show "?Q RH T r cs y"
    proof (intro allI impI)
      fix ok r' cs'
      assume y: "y = Returned ok r' cs'"
      show "\<exists>k cs1. consume RH T k r cs = Some (r', cs1) \<and>
           (cs' = cs1 \<or> (\<not> ok \<and> (\<exists>c. cs' = cs1 @ [c])))"
      proof (cases "m_pos r < m_size r")
        case False
        then have "r' = r" "cs' = cs" using eq y by auto
        then have "consume RH T 0 r cs = Some (r', cs') " by simp
        then show ?thesis by blast
      next
        case True
        show ?thesis
        proof (cases "ReadAllChildren_body RH T r cs")
          case (ReturnFalse r2 cs2)
          then have "\<not> ok" "r' = r2" "cs' = cs2" using eq y True by auto
          moreover have "r2 = r \<and> (cs2 = cs \<or> (\<exists>c. cs2 = cs @ [c]))"
            using ReturnFalse by (rule body_ReturnFalse)
          ultimately have "consume RH T 0 r cs = Some (r', cs)"
            "cs' = cs \<or> (\<not> ok \<and> (\<exists>c. cs' = cs @ [c]))" by auto
          then show ?thesis by blast
        next
          case (Continue r2 cs2)
          then have "loop RH T r2 cs2 = Some y" using eq True by simp
          from IH [OF this] y obtain k cs1 where
            "consume RH T k r2 cs2 = Some (r', cs1)"
            "cs' = cs1 \<or> (\<not> ok \<and> (\<exists>c. cs' = cs1 @ [c]))" by blast
          then have "consume RH T (Suc k) r cs = Some (r', cs1)"
            "cs' = cs1 \<or> (\<not> ok \<and> (\<exists>c. cs' = cs1 @ [c]))"
            using True Continue by auto
          then show ?thesis by blast
        qed
      qed
    qed
  qed
  then show ?thesis by simp
qed

subsection \<open>ScanChildren\<close>


lemma scan_step_pos:
  "ScanChildren_step RH r = ScanNext r' \<Longrightarrow>
   \<exists>err child. RH (BoxReader_new (drop (m_pos r) (m_buf r)) (m_size r - m_pos r)) = (True, err, child) \<and>
     m_pos r' = m_pos r + m_size child \<and> m_size r' = m_size r \<and> m_pos r' \<le> m_size r'"
  by (auto simp: ScanChildren_step_def Let_def split: prod.splits if_splits)

lemma ScanChildren_loop_returns:
  assumes progress: "\<And>x err cr. RH x = (True, err, cr) \<Longrightarrow> 0 < m_size cr"
  shows "\<exists>y. ScanChildren_loop RH r = Some y"
proof (induction "m_size r - m_pos r" arbitrary: r rule: less_induct)
  case less
  show ?case
  proof (cases "m_pos r < m_size r")
    case False
    then show ?thesis by (subst ScanChildren_loop.simps) auto
  next
    case True
    show ?thesis
    proof (cases "ScanChildren_step RH r")
      case ScanFailed
      then show ?thesis using True by (subst ScanChildren_loop.simps) auto
    next
      case (ScanNext r2)
      from scan_step_pos [OF this] obtain err child where
        rh: "RH (BoxReader_new (drop (m_pos r) (m_buf r)) (m_size r - m_pos r)) = (True, err, child)"
        and p: "m_pos r2 = m_pos r + m_size child" and s: "m_size r2 = m_size r"
        by blast
      have "0 < m_size child" using progress rh by blast
      then have "m_size r2 - m_pos r2 < m_size r - m_pos r" using p s True by simp
      from less [OF this] obtain y where "ScanChildren_loop RH r2 = Some y" by blast
      then show ?thesis using True ScanNext by (subst ScanChildren_loop.simps) simp
    qed
  qed
qed

subsection \<open>Headers\<close>

lemma ReadHeader_progress:
  "ReadHeader F x = (True, err, cr) \<Longrightarrow> 0 < m_size cr"
  by (auto simp: ReadHeader_def check_size_def Read_bytes_def Let_def HasBytes_def
      split: if_splits prod.splits)

lemma ReadHeader_ok_err: "ReadHeader F x = (True, err, cr) \<Longrightarrow> \<not> err"
  by (auto simp: ReadHeader_def check_size_def Read_bytes_def Let_def
      split: if_splits prod.splits)

lemma ReadHeader_new:
  "ReadHeader F (BoxReader_new buf n) =
     (case declared_header F buf n of
        None \<Rightarrow> (False, False, snd (snd (ReadHeader F (BoxReader_new buf n))))
      | Some (sz, hl) \<Rightarrow>
          if sz < hl \<or> max_box_size F < sz
          then (False, True, snd (snd (ReadHeader F (BoxReader_new buf n))))
          else (True, False, snd (snd (ReadHeader F (BoxReader_new buf n)))))"
  by (simp add: ReadHeader_def declared_header_def BoxReader_new_def HasBytes_def Read_bytes_def
      check_size_def Let_def)

subsection \<open>The examples\<close>

lemmas example_defs =
  scenario_body_def trak_bytes_def body_reader_def scenario_format_def ByteBox_def
  ReadHeader_def check_size_def Read_bytes_def HasBytes_def BoxReader_new_def be_value_def
  FOURCC_NULL_def

lemma stray_bytes_not_exact: "\<not> exact_units (ReadHeader scenario_format) (ByteBox FOURCC_TRAK) (scenario_body @ [0, 0, 0]) 31 us"
proof (cases us)
  case Nil
  then show ?thesis by simp
next
  case (Cons a as)
  show ?thesis
  proof (cases as)
    case Nil
    then show ?thesis using Cons by (simp add: example_defs Let_def)
  next
    case (Cons b bs)
    note c2 = this
    show ?thesis
    proof (cases bs)
      case Nil
      then show ?thesis using Cons c2 \<open>us = a # as\<close> by (simp add: example_defs Let_def)
    next
      case (Cons c cs)
      then show ?thesis using c2 \<open>us = a # as\<close> by (simp add: example_defs Let_def)
    qed
  qed
qed

lemma overrun_run:
  "ReadAllChildren (ReadHeader scenario_format) (ByteBox FOURCC_TRAK) (body_reader overrun_body) [] =
   Some (Returned False (BoxReader overrun_body 18 9 FOURCC_NULL [] True) [7, 5])"
  by (simp add: ReadAllChildren_def ReadAllChildren_loop.simps ReadAllChildren_body_def
      SkipBytes_def overrun_body_def example_defs Let_def)



lemma failing_run:
  "TryReadChildren (ByteBox FOURCC_TRAK) failing_reader [] = Returned False after_failure [7, 0, 0]"
  by (simp add: TryReadChildren_def Let_def resize_def lower_bound_def upper_bound_def
      failing_reader_def after_failure_def scanned_reader_def ByteBox_def multimap_of_def
      insert_mm_def FOURCC_TRAK_def trak_a_def trak_b_def trak_empty_def child_of_def
      trak_bytes_def)

section \<open>The claims\<close>

text \<open>
  C1. A reader was scanned and its scan discovered the children \<open>ds\<close>, in this order;
  \<open>matches\<close> are those of the tag of \<open>T\<close>, there is at least one, and \<open>Parse\<close>
  succeeds on each. Then \<open>ReadChildren\<close> returns true, the multimap keeps exactly the
  entries of the other tags, and the vector holds one parsed element for each match, in
  the order of discovery.
\<close>

theorem ReadChildren_all_matches:
  assumes "m_scanned r"
    and "m_children r = multimap_of (map (\<lambda>(k, rd). (k, Live rd)) ds)"
    and "tag = BoxType T (T_default T)"
    and "matches = filter (\<lambda>(k, rd). k = tag) ds"
    and "matches \<noteq> []"
    and "\<forall>(k, rd) \<in> set matches. fst (Parse T (T_default T) rd)"
  shows "ReadChildren T r [] =
         Returned True
           (set_children (filter (\<lambda>e. fst e \<noteq> tag) (m_children r)) r)
           (map (\<lambda>(k, rd). snd (Parse T (T_default T) rd)) matches)"
proof -
  let ?live = "map (\<lambda>(k, rd). (k, Live rd))"
  have srt: "sorted (map fst (m_children r))"
    using assms(2) by (simp add: sorted_multimap_of)
  have "filter (\<lambda>e. fst e = tag) (m_children r) = filter (\<lambda>e. fst e = tag) (?live ds)"
    using assms(2) by (simp add: filter_multimap_of)
  also have "\<dots> = ?live matches"
    unfolding assms(4) by (induction ds) auto
  finally have rng: "filter (\<lambda>e. fst e = tag) (m_children r) = ?live matches" .
  have pr: "parse_range T (?live matches) (replicate (length matches) (T_default T)) =
        RangeDone (map (\<lambda>(k, rd). (k, Deleted)) matches)
          (map (\<lambda>(k, rd). snd (Parse T (T_default T) rd)) matches)"
    using assms(6) by (rule parse_range_all_ok)
  have "TryReadChildren T r [] =
        Returned True (set_children (filter (\<lambda>e. fst e \<noteq> tag) (m_children r)) r)
          (map (\<lambda>(k, rd). snd (Parse T (T_default T) rd)) matches)"
    using rng pr assms(3) by (simp add: TryReadChildren_sorted [OF assms(1) srt])
  then show ?thesis using assms(5) by (simp add: ReadChildren_def)
qed

theorem ReadChildren_all_matches_witness:
  "ReadChildren (ByteBox FOURCC_TRAK)
     (scanned_reader [(FOURCC_TRAK, trak_a), (FOURCC_FREE, free_c), (FOURCC_TRAK, trak_b)]) [] =
   Returned True (scanned_reader [(FOURCC_FREE, free_c)]) [7, 9]"
  using ReadChildren_all_matches [of
      "scanned_reader [(FOURCC_TRAK, trak_a), (FOURCC_FREE, free_c), (FOURCC_TRAK, trak_b)]"
      "[(FOURCC_TRAK, trak_a), (FOURCC_FREE, free_c), (FOURCC_TRAK, trak_b)]"
      FOURCC_TRAK "ByteBox FOURCC_TRAK"
      "[(FOURCC_TRAK, trak_a), (FOURCC_TRAK, trak_b)]"]
  by (simp add: scanned_reader_def ByteBox_def multimap_of_def insert_mm_def upper_bound_def
      FOURCC_TRAK_def FOURCC_FREE_def trak_a_def trak_b_def child_of_def trak_bytes_def)

text \<open>
  C2. On a reader that is not scanned, with headers that declare sizes above 0,
  \<open>ReadAllChildren\<close> returns, and it returns true exactly when the rest of the body is
  an exact concatenation of units, each with a header that is accepted, fitting in what
  remains and accepted by \<open>Parse\<close>; the vector then gains these units in the order of
  the body and the cursor stands at the end. Anything else, a last unit cut short
  included, is a return of false. On an empty body it returns true and adds nothing.
\<close>

theorem ReadAllChildren_exact_concatenation:
  assumes "\<not> m_scanned r" and "m_pos r \<le> m_size r"
    and "\<forall>x err cr. RH x = (True, err, cr) \<longrightarrow> 0 < m_size cr"
  shows "(\<exists>ok r' cs'. ReadAllChildren RH T r cs = Some (Returned ok r' cs') \<and>
            (ok \<longleftrightarrow> (\<exists>us. exact_units RH T (drop (m_pos r) (m_buf r)) (m_size r - m_pos r) us)) \<and>
            (\<forall>us. exact_units RH T (drop (m_pos r) (m_buf r)) (m_size r - m_pos r) us \<longrightarrow>
                  cs' = cs @ us \<and> r' = set_pos (m_size r) (set_scanned True r)))
       \<and> (m_pos r = m_size r \<longrightarrow>
            ReadAllChildren RH T r cs = Some (Returned True (set_scanned True r) cs))"
proof (intro conjI impI)
  let ?r = "set_scanned True r"
  have ra: "ReadAllChildren RH T r cs = ReadAllChildren_loop RH T ?r cs"
    using assms(1) by (simp add: ReadAllChildren_def)
  have "\<And>x err cr. RH x = (True, err, cr) \<Longrightarrow> 0 < m_size cr" using assms(3) by blast
  then obtain ok r' cs' where l: "ReadAllChildren_loop RH T ?r cs = Some (Returned ok r' cs')"
    using loop_returns [of RH T ?r cs] by blast
  have le: "m_pos ?r \<le> m_size ?r" using assms(2) by simp
  have a: "\<exists>us. exact_units RH T (drop (m_pos r) (m_buf r)) (m_size r - m_pos r) us" if ok
    using loop_success [of RH T ?r cs r' cs'] l le that by auto
  have b: "ok \<and> cs' = cs @ us \<and> r' = set_pos (m_size r) ?r"
    if "exact_units RH T (drop (m_pos r) (m_buf r)) (m_size r - m_pos r) us" for us
    using loop_exact [of RH T ?r us cs] that le l by simp
  show "\<exists>ok r' cs'. ReadAllChildren RH T r cs = Some (Returned ok r' cs') \<and>
            (ok \<longleftrightarrow> (\<exists>us. exact_units RH T (drop (m_pos r) (m_buf r)) (m_size r - m_pos r) us)) \<and>
            (\<forall>us. exact_units RH T (drop (m_pos r) (m_buf r)) (m_size r - m_pos r) us \<longrightarrow>
                  cs' = cs @ us \<and> r' = set_pos (m_size r) (set_scanned True r))"
  proof (intro exI conjI)
    show "ReadAllChildren RH T r cs = Some (Returned ok r' cs')" using ra l by simp
    show "ok \<longleftrightarrow> (\<exists>us. exact_units RH T (drop (m_pos r) (m_buf r)) (m_size r - m_pos r) us)"
      using a b by blast
    show "\<forall>us. exact_units RH T (drop (m_pos r) (m_buf r)) (m_size r - m_pos r) us \<longrightarrow>
                  cs' = cs @ us \<and> r' = set_pos (m_size r) (set_scanned True r)"
      using b by blast
  qed
next
  assume "m_pos r = m_size r"
  then show "ReadAllChildren RH T r cs = Some (Returned True (set_scanned True r) cs)"
    using assms(1) by (subst ReadAllChildren_def, subst ReadAllChildren_loop.simps) simp
qed

theorem ReadAllChildren_exact_concatenation_witness:
  "ReadAllChildren (ReadHeader scenario_format) (ByteBox FOURCC_TRAK) (body_reader scenario_body) [] =
     Some (Returned True (set_pos 28 (set_scanned True (body_reader scenario_body))) [7, 9]) \<and>
   (\<exists>r' cs'. ReadAllChildren (ReadHeader scenario_format) (ByteBox FOURCC_TRAK)
               (body_reader (scenario_body @ [0, 0, 0])) [] = Some (Returned False r' cs'))"
proof
  let ?r = "body_reader scenario_body"
  let ?q = "body_reader (scenario_body @ [0, 0, 0])"
  let ?RH = "ReadHeader scenario_format"
  let ?T = "ByteBox FOURCC_TRAK"
  have h3: "\<forall>x err cr. ?RH x = (True, err, cr) \<longrightarrow> 0 < m_size cr"
    using ReadHeader_progress by blast
  have h1: "\<not> m_scanned ?r" by (simp add: body_reader_def)
  have h2: "m_pos ?r \<le> m_size ?r" by (simp add: body_reader_def)
  have e: "exact_units ?RH ?T (drop (m_pos ?r) (m_buf ?r)) (m_size ?r - m_pos ?r) [7, 9]"
    by (simp add: example_defs Let_def)
  have s: "m_size ?r = 28" by (simp add: example_defs)
  from ReadAllChildren_exact_concatenation [OF h1 h2 h3, of ?T "[]"]
  obtain ok r' cs' where
    ra: "ReadAllChildren ?RH ?T ?r [] = Some (Returned ok r' cs')"
    and iff: "ok \<longleftrightarrow> (\<exists>us. exact_units ?RH ?T (drop (m_pos ?r) (m_buf ?r))
                (m_size ?r - m_pos ?r) us)"
    and res: "\<forall>us. exact_units ?RH ?T (drop (m_pos ?r) (m_buf ?r))
                (m_size ?r - m_pos ?r) us \<longrightarrow>
              cs' = [] @ us \<and> r' = set_pos (m_size ?r) (set_scanned True ?r)"
    by blast
  have "ok" using iff e by blast
  moreover have "cs' = [7, 9]" "r' = set_pos 28 (set_scanned True ?r)"
    using res [rule_format, OF e] s by simp_all
  ultimately show "ReadAllChildren ?RH ?T ?r [] =
      Some (Returned True (set_pos 28 (set_scanned True ?r)) [7, 9])"
    using ra by simp
  have g1: "\<not> m_scanned ?q" by (simp add: body_reader_def)
  have g2: "m_pos ?q \<le> m_size ?q" by (simp add: body_reader_def)
  have q: "drop (m_pos ?q) (m_buf ?q) = scenario_body @ [0, 0, 0]" "m_size ?q - m_pos ?q = 31"
    by (simp_all add: body_reader_def scenario_body_def trak_bytes_def)
  from ReadAllChildren_exact_concatenation [OF g1 g2 h3, of ?T "[]"]
  obtain ok2 r2 cs2 where
    ra2: "ReadAllChildren ?RH ?T ?q [] = Some (Returned ok2 r2 cs2)"
    and iff2: "ok2 \<longleftrightarrow> (\<exists>us. exact_units ?RH ?T (drop (m_pos ?q) (m_buf ?q))
                (m_size ?q - m_pos ?q) us)"
    by blast
  have "\<not> ok2" using iff2 stray_bytes_not_exact unfolding q by blast
  then show "\<exists>r' cs'. ReadAllChildren ?RH ?T ?q [] = Some (Returned False r' cs')"
    using ra2 by auto
qed

text \<open>
  C3. The claim does not hold of the code. Here \<open>TryReadChildren\<close> meets three children
  of its tag: \<open>Parse\<close> succeeds on the first and fails on the second. The call returns
  false (\<open>RCHECK\<close>) before \<open>children_.erase\<close>: the entry of the first child, whose
  reader was freed by \<open>delete\<close>, is still in the multimap, and a second call for the
  tag uses the freed reader.
\<close>

theorem TryReadChildren_failure_leaves_freed_entries:
  "TryReadChildren (ByteBox FOURCC_TRAK) failing_reader [] = Returned False after_failure [7, 0, 0] \<and>
   m_children after_failure =
     [(FOURCC_TRAK, Deleted), (FOURCC_TRAK, Live trak_empty), (FOURCC_TRAK, Live trak_b)] \<and>
   TryReadChildren (ByteBox FOURCC_TRAK) after_failure [] = Undefined"
  by (simp add: TryReadChildren_def Let_def resize_def lower_bound_def upper_bound_def
      failing_reader_def after_failure_def scanned_reader_def ByteBox_def multimap_of_def
      insert_mm_def FOURCC_TRAK_def trak_a_def trak_b_def trak_empty_def child_of_def
      trak_bytes_def)




text \<open>
  C5. On a scanned reader with no entry of the tag of \<open>T\<close>, \<open>ReadChildren\<close> returns
  false and \<open>TryReadChildren\<close> returns true with an empty vector, both leaving the
  reader as it was; and whenever the two calls differ, the multimap has no entry of the
  tag.
\<close>

theorem zero_matches:
  assumes "m_scanned r" and "sorted (map fst (m_children r))"
  shows "(BoxType T (T_default T) \<notin> fst ` set (m_children r) \<longrightarrow>
            ReadChildren T r [] = Returned False r [] \<and>
            TryReadChildren T r [] = Returned True r [])
       \<and> (ReadChildren T r [] \<noteq> TryReadChildren T r [] \<longrightarrow>
            BoxType T (T_default T) \<notin> fst ` set (m_children r))"
proof (intro conjI impI)
  let ?tag = "BoxType T (T_default T)"
  assume no: "?tag \<notin> fst ` set (m_children r)"
  then have e: "filter (\<lambda>e. fst e = ?tag) (m_children r) = []"
    by (force simp: filter_empty_conv)
  have i: "filter (\<lambda>e. fst e \<noteq> ?tag) (m_children r) = m_children r"
    using no by (force simp: filter_id_conv)
  have s: "set_children (m_children r) r = r" by (cases r) simp
  show t: "TryReadChildren T r [] = Returned True r []"
    using e i s by (simp add: TryReadChildren_sorted [OF assms])
  show "ReadChildren T r [] = Returned False r []"
    using t by (simp add: ReadChildren_def)
next
  let ?tag = "BoxType T (T_default T)"
  let ?ms = "filter (\<lambda>e. fst e = ?tag) (m_children r)"
  assume "ReadChildren T r [] \<noteq> TryReadChildren T r []"
  then obtain r' where t: "TryReadChildren T r [] = Returned True r' []"
    using differ_iff by blast
  then obtain es where "parse_range T ?ms (replicate (length ?ms) (T_default T)) = RangeDone es []"
    by (auto simp: TryReadChildren_sorted [OF assms] split: range_result.splits)
  then have "length ?ms = 0"
    using parse_range_length [of T ?ms "replicate (length ?ms) (T_default T)" es "[]"] by simp
  then show "?tag \<notin> fst ` set (m_children r)"
    by (force simp: filter_empty_conv)
qed

theorem zero_matches_witness:
  "ReadChildren (ByteBox FOURCC_TRAK) (scanned_reader [(FOURCC_FREE, free_c)]) [] =
     Returned False (scanned_reader [(FOURCC_FREE, free_c)]) [] \<and>
   TryReadChildren (ByteBox FOURCC_TRAK) (scanned_reader [(FOURCC_FREE, free_c)]) [] =
     Returned True (scanned_reader [(FOURCC_FREE, free_c)]) []"
proof -
  let ?r = "scanned_reader [(FOURCC_FREE, free_c)]"
  have h1: "m_scanned ?r" by (simp add: scanned_reader_def)
  have h2: "sorted (map fst (m_children ?r))" by (simp add: scanned_reader_def sorted_multimap_of)
  have h3: "BoxType (ByteBox FOURCC_TRAK) (T_default (ByteBox FOURCC_TRAK)) \<notin> fst ` set (m_children ?r)"
    by (simp add: scanned_reader_def ByteBox_def multimap_of_def insert_mm_def upper_bound_def
        FOURCC_TRAK_def FOURCC_FREE_def)
  from zero_matches [OF h1 h2, of "ByteBox FOURCC_TRAK"] h3 show ?thesis by blast
qed

text \<open>
  C6. On a buffer whose header the probe has confirmed (\<open>StartTopLevelBox\<close> accepts
  it), \<open>ReadTopLevelBox\<close> returns a reader for the media-data tag whether or not the
  body is in the buffer, and for any other tag returns NULL with \<open>*err\<close> false when
  the declared size exceeds the buffer.
\<close>

theorem ReadTopLevelBox_mdat_header_only:
  assumes "StartTopLevelBox F buf buf_size = (True, err, Some (tag, sz))"
  shows "(tag = FOURCC_MDAT \<longrightarrow>
            (\<exists>rd. ReadTopLevelBox F buf buf_size = (Some rd, False) \<and>
                  m_type rd = FOURCC_MDAT \<and> m_size rd = sz))
       \<and> (tag \<noteq> FOURCC_MDAT \<and> buf_size < sz \<longrightarrow>
            ReadTopLevelBox F buf buf_size = (None, False))"
proof -
  obtain ok e rd where rh: "ReadHeader F (BoxReader_new buf buf_size) = (ok, e, rd)"
    by (cases "ReadHeader F (BoxReader_new buf buf_size)") auto
  with assms have ok: ok and t: "m_type rd = tag" and s: "m_size rd = sz"
    by (auto simp: StartTopLevelBox_def split: bool.splits)
  have "ReadHeader F (BoxReader_new buf buf_size) = (True, e, rd)" using rh ok by simp
  then have e: "\<not> e" by (rule ReadHeader_ok_err)
  show ?thesis using rh ok e t s by (auto simp: ReadTopLevelBox_def)
qed

theorem ReadTopLevelBox_mdat_header_only_witness:
  "StartTopLevelBox scenario_format (mdat_header 100) 8 = (True, False, Some (FOURCC_MDAT, 100)) \<and>
   (\<exists>rd. ReadTopLevelBox scenario_format (mdat_header 100) 8 = (Some rd, False) \<and>
         m_type rd = FOURCC_MDAT \<and> m_size rd = 100) \<and>
   StartTopLevelBox scenario_format (trak_bytes 100 []) 8 = (True, False, Some (FOURCC_TRAK, 100)) \<and>
   ReadTopLevelBox scenario_format (trak_bytes 100 []) 8 = (None, False)"
proof -
  have a: "StartTopLevelBox scenario_format (mdat_header 100) 8 =
           (True, False, Some (FOURCC_MDAT, 100))"
    by (simp add: StartTopLevelBox_def mdat_header_def FOURCC_MDAT_def example_defs Let_def)
  have b: "StartTopLevelBox scenario_format (trak_bytes 100 []) 8 =
           (True, False, Some (FOURCC_TRAK, 100))"
    by (simp add: StartTopLevelBox_def FOURCC_TRAK_def example_defs Let_def)
  have c: "FOURCC_TRAK \<noteq> FOURCC_MDAT" by (simp add: FOURCC_TRAK_def FOURCC_MDAT_def)
  show ?thesis
    using ReadTopLevelBox_mdat_header_only [OF a] ReadTopLevelBox_mdat_header_only [OF b] a b c
    by simp
qed

text \<open>
  C7. On a buffer of fewer than 8 bytes, the length of the shortest header,
  \<open>StartTopLevelBox\<close> returns false and leaves \<open>*err\<close> false.
\<close>

theorem StartTopLevelBox_short_buffer:
  "buf_size < 8 \<Longrightarrow> StartTopLevelBox F buf buf_size = (False, False, None)"
  by (simp add: StartTopLevelBox_def ReadHeader_def HasBytes_def BoxReader_new_def)

theorem StartTopLevelBox_short_buffer_witness:
  "(3::nat) < 8 \<and> StartTopLevelBox scenario_format [0, 0, 0] 3 = (False, False, None)"
  using StartTopLevelBox_short_buffer [of 3 scenario_format "[0, 0, 0]"] by simp

text \<open>
  C8. When the header is complete and declares a size below the number of header bytes
  consumed, \<open>StartTopLevelBox\<close> returns false with \<open>*err\<close> true and
  \<open>ReadTopLevelBox\<close> returns NULL with \<open>*err\<close> true.
\<close>

theorem declared_size_below_header:
  assumes "declared_header F buf buf_size = Some (sz, hl)" and "sz < hl"
  shows "StartTopLevelBox F buf buf_size = (False, True, None) \<and>
         ReadTopLevelBox F buf buf_size = (None, True)"
proof -
  have "ReadHeader F (BoxReader_new buf buf_size) =
        (False, True, snd (snd (ReadHeader F (BoxReader_new buf buf_size))))"
    using assms by (subst ReadHeader_new) simp
  then obtain rd where "ReadHeader F (BoxReader_new buf buf_size) = (False, True, rd)" ..
  then show ?thesis by (simp add: StartTopLevelBox_def ReadTopLevelBox_def)
qed

theorem declared_size_below_header_witness:
  "declared_header scenario_format (trak_bytes 4 []) 8 = Some (4, 8) \<and>
   StartTopLevelBox scenario_format (trak_bytes 4 []) 8 = (False, True, None) \<and>
   ReadTopLevelBox scenario_format (trak_bytes 4 []) 8 = (None, True)"
proof -
  have h: "declared_header scenario_format (trak_bytes 4 []) 8 = Some (4, 8)"
    by (simp add: declared_header_def trak_bytes_def scenario_format_def be_value_def)
  from declared_size_below_header [OF h] h show ?thesis by simp
qed

text \<open>
  C9. \<open>matches\<close> are the entries of the tag of \<open>T()\<close>. A call of
  \<open>TryReadChildren\<close> or \<open>ReadChildren\<close> with a vector that is not empty is a
  contract violation. On a scanned reader with an empty vector and no freed entry among
  the matches, \<open>TryReadChildren\<close> returns. Whatever it returns, the vector was empty at
  entry and has been resized to the number of matches; when it returns true, the
  vector holds, for each match and in their order, the element that \<open>Parse\<close> made of
  \<open>T()\<close> and the reader of the entry, and nothing else. \<open>ReadChildren\<close> leaves the
  same reader and vector and returns true exactly when \<open>TryReadChildren\<close> does and
  there is a match.
\<close>

theorem destination_replaced:
  assumes "sorted (map fst (m_children r))"
    and "matches = filter (\<lambda>e. fst e = BoxType T (T_default T)) (m_children r)"
  shows "(cs \<noteq> [] \<longrightarrow> TryReadChildren T r cs = DcheckFailed \<and> ReadChildren T r cs = DcheckFailed)
       \<and> (m_scanned r \<and> cs = [] \<and> (\<forall>e\<in>set matches. snd e \<noteq> Deleted) \<longrightarrow>
            (\<exists>ok r' cs'. TryReadChildren T r cs = Returned ok r' cs'))
       \<and> (\<forall>ok r' cs'. TryReadChildren T r cs = Returned ok r' cs' \<longrightarrow>
            cs = [] \<and> length cs' = length matches \<and>
            (ok \<longrightarrow> list_all2 (\<lambda>e c. \<exists>rd. snd e = Live rd \<and> Parse T (T_default T) rd = (True, c))
                      matches cs') \<and>
            ReadChildren T r cs = Returned (ok \<and> matches \<noteq> []) r' cs')
       \<and> (\<forall>ok r' cs'. ReadChildren T r cs = Returned ok r' cs' \<longrightarrow>
            cs = [] \<and> length cs' = length matches \<and>
            (ok \<longrightarrow> matches \<noteq> [] \<and>
                   list_all2 (\<lambda>e c. \<exists>rd. snd e = Live rd \<and> Parse T (T_default T) rd = (True, c))
                     matches cs'))"
proof -
  let ?d = "T_default T"
  let ?Q = "\<lambda>e c. \<exists>rd. snd e = Live rd \<and> Parse T ?d rd = (True, c)"
  have dc: "TryReadChildren T r cs = DcheckFailed \<and> ReadChildren T r cs = DcheckFailed"
    if "cs \<noteq> []"
    using that by (simp add: TryReadChildren_def ReadChildren_def)
  have ret: "\<exists>ok r' cs'. TryReadChildren T r cs = Returned ok r' cs'"
    if "m_scanned r" "cs = []" "\<forall>e\<in>set matches. snd e \<noteq> Deleted"
  proof -
    have "parse_range T matches (replicate (length matches) ?d) \<noteq> RangeUndefined"
      using that(3) by (intro parse_range_defined) simp_all
    then show ?thesis
      unfolding that(2) TryReadChildren_sorted [OF that(1) assms(1)] assms(2) [symmetric]
      by (cases "parse_range T matches (replicate (length matches) ?d)") auto
  qed
  have tr: "cs = [] \<and> length cs' = length matches \<and> (ok \<longrightarrow> list_all2 ?Q matches cs')"
    if t: "TryReadChildren T r cs = Returned ok r' cs'" for ok r' cs'
  proof -
    from t have sc: "m_scanned r" and e: "cs = []"
      by (auto simp: TryReadChildren_def split: if_splits)
    from t obtain es where
      pr: "parse_range T matches (replicate (length matches) ?d) = RangeDone es cs' \<and> ok \<or>
           parse_range T matches (replicate (length matches) ?d) = RangeFailed es cs' \<and> \<not> ok"
      unfolding e TryReadChildren_sorted [OF sc assms(1)] assms(2) [symmetric]
      by (auto split: range_result.splits)
    then have "length cs' = length (replicate (length matches) ?d)"
      using parse_range_length [of T matches "replicate (length matches) ?d" es cs'] by blast
    moreover have "list_all2 ?Q matches cs'" if ok
      using pr that parse_range_done [of T matches ?d es cs'] by blast
    ultimately show ?thesis using e by simp
  qed
  have rc: "ReadChildren T r cs = Returned (ok \<and> matches \<noteq> []) r' cs'"
    if t: "TryReadChildren T r cs = Returned ok r' cs'" for ok r' cs'
  proof -
    have "length cs' = length matches" using tr [OF t] by simp
    then have "cs' \<noteq> [] \<longleftrightarrow> matches \<noteq> []" by auto
    then show ?thesis using t by (simp add: ReadChildren_def)
  qed
  have rr: "cs = [] \<and> length cs' = length matches \<and> (ok \<longrightarrow> matches \<noteq> [] \<and> list_all2 ?Q matches cs')"
    if t: "ReadChildren T r cs = Returned ok r' cs'" for ok r' cs'
  proof -
    from t obtain ok' where t': "TryReadChildren T r cs = Returned ok' r' cs'"
      and o: "ok = (ok' \<and> cs' \<noteq> [])"
      by (auto simp: ReadChildren_def split: outcome.splits)
    from tr [OF t'] rc [OF t'] t o show ?thesis by auto
  qed
  show ?thesis using dc ret tr rc rr by blast
qed

theorem destination_replaced_witness:
  "TryReadChildren (ByteBox FOURCC_TRAK)
     (scanned_reader [(FOURCC_TRAK, trak_a), (FOURCC_FREE, free_c), (FOURCC_TRAK, trak_b)]) [3] =
     DcheckFailed \<and>
   ReadChildren (ByteBox FOURCC_TRAK)
     (scanned_reader [(FOURCC_TRAK, trak_a), (FOURCC_FREE, free_c), (FOURCC_TRAK, trak_b)]) [3] =
     DcheckFailed \<and>
   TryReadChildren (ByteBox FOURCC_TRAK)
     (scanned_reader [(FOURCC_TRAK, trak_a), (FOURCC_FREE, free_c), (FOURCC_TRAK, trak_b)]) [] =
     Returned True (scanned_reader [(FOURCC_FREE, free_c)]) [7, 9] \<and>
   ReadChildren (ByteBox FOURCC_TRAK)
     (scanned_reader [(FOURCC_TRAK, trak_a), (FOURCC_FREE, free_c), (FOURCC_TRAK, trak_b)]) [] =
     Returned True (scanned_reader [(FOURCC_FREE, free_c)]) [7, 9] \<and>
   ReadChildren (ByteBox FOURCC_TRAK) failing_reader [] = Returned False after_failure [7, 0, 0] \<and>
   length [7 :: uint8, 0, 0] =
     length (filter (\<lambda>e. fst e = FOURCC_TRAK) (m_children failing_reader))"
proof -
  let ?T = "ByteBox FOURCC_TRAK"
  let ?r = "scanned_reader [(FOURCC_TRAK, trak_a), (FOURCC_FREE, free_c), (FOURCC_TRAK, trak_b)]"
  let ?m = "[(FOURCC_TRAK, Live trak_a), (FOURCC_TRAK, Live trak_b)]"
  let ?f = "filter (\<lambda>e. fst e = FOURCC_TRAK) (m_children failing_reader)"
  have bt: "BoxType ?T (T_default ?T) = FOURCC_TRAK" by (simp add: ByteBox_def)
  have h: "sorted (map fst (m_children ?r))" by (simp add: scanned_reader_def sorted_multimap_of)
  have m: "?m = filter (\<lambda>e. fst e = BoxType ?T (T_default ?T)) (m_children ?r)"
    by (simp add: scanned_reader_def ByteBox_def multimap_of_def insert_mm_def upper_bound_def
        FOURCC_TRAK_def FOURCC_FREE_def)
  have t: "TryReadChildren ?T ?r [] = Returned True (scanned_reader [(FOURCC_FREE, free_c)]) [7, 9]"
    by (simp add: TryReadChildren_def Let_def resize_def lower_bound_def upper_bound_def
        erase_def scanned_reader_def ByteBox_def multimap_of_def insert_mm_def
        FOURCC_TRAK_def FOURCC_FREE_def trak_a_def trak_b_def child_of_def trak_bytes_def)
  from destination_replaced [OF h m, of "[3]"]
  have a: "TryReadChildren ?T ?r [3] = DcheckFailed \<and> ReadChildren ?T ?r [3] = DcheckFailed"
    by simp
  from destination_replaced [OF h m, of "[]"] t
  have b: "ReadChildren ?T ?r [] = Returned (True \<and> ?m \<noteq> []) (scanned_reader [(FOURCC_FREE, free_c)]) [7, 9]"
    by blast
  have g: "sorted (map fst (m_children failing_reader))"
    by (simp add: failing_reader_def scanned_reader_def sorted_multimap_of)
  have n: "?f = filter (\<lambda>e. fst e = BoxType ?T (T_default ?T)) (m_children failing_reader)"
    unfolding bt ..
  from destination_replaced [OF g n, of "[]"] failing_run
  have c: "length [7 :: uint8, 0, 0] = length ?f \<and>
           ReadChildren ?T failing_reader [] = Returned (False \<and> ?f \<noteq> []) after_failure [7, 0, 0]"
    by blast
  show ?thesis using a b c t by simp
qed

text \<open>
  C10. Whatever \<open>ReadAllChildren\<close> returns, the latch is set in the reader it leaves.
  The reader and the vector are those after some number \<open>k\<close> of full passes of the
  loop: the vector holds what it held at entry and the \<open>k\<close> children of these passes,
  and, when false is returned, possibly one more child, parsed but not skipped; the
  cursor stands after the last of the \<open>k\<close> children, not before where it stood at
  entry.
\<close>

theorem ReadAllChildren_latch_and_prefix:
  assumes "ReadAllChildren RH T r cs = Some (Returned ok r' cs')"
  shows "m_scanned r' \<and>
         (\<exists>k cs1. consume RH T k (set_scanned True r) cs = Some (r', cs1) \<and>
            length cs1 = length cs + k \<and> take (length cs) cs1 = cs \<and>
            (cs' = cs1 \<or> (\<not> ok \<and> (\<exists>c. cs' = cs1 @ [c]))) \<and>
            m_pos r \<le> m_pos r')"
proof -
  have l: "ReadAllChildren_loop RH T (set_scanned True r) cs = Some (Returned ok r' cs')"
    using assms by (auto simp: ReadAllChildren_def split: if_splits)
  from loop_consume [OF l] obtain k cs1 where
    c: "consume RH T k (set_scanned True r) cs = Some (r', cs1)"
    and d: "cs' = cs1 \<or> (\<not> ok \<and> (\<exists>c. cs' = cs1 @ [c]))" by blast
  from consume_facts [OF c] have
    "m_scanned r'" "m_pos r \<le> m_pos r'" "length cs1 = length cs + k" "take (length cs) cs1 = cs"
    by simp_all
  then show ?thesis using c d by blast
qed

theorem ReadAllChildren_latch_and_prefix_witness:
  "ReadAllChildren (ReadHeader scenario_format) (ByteBox FOURCC_TRAK) (body_reader overrun_body) [] =
     Some (Returned False (BoxReader overrun_body 18 9 FOURCC_NULL [] True) [7, 5]) \<and>
   m_scanned (BoxReader overrun_body 18 9 FOURCC_NULL [] True) \<and>
   (\<exists>k cs1. consume (ReadHeader scenario_format) (ByteBox FOURCC_TRAK) k
               (set_scanned True (body_reader overrun_body)) [] =
             Some (BoxReader overrun_body 18 9 FOURCC_NULL [] True, cs1) \<and>
            length cs1 = length ([] :: uint8 list) + k \<and> take (length ([] :: uint8 list)) cs1 = [] \<and>
            ([7, 5] = cs1 \<or> (\<not> False \<and> (\<exists>c. [7, 5] = cs1 @ [c]))) \<and>
            m_pos (body_reader overrun_body) \<le> m_pos (BoxReader overrun_body 18 9 FOURCC_NULL [] True))"
  using ReadAllChildren_latch_and_prefix [OF overrun_run] overrun_run by blast

end
